theory Spec2Isabelle
  imports Complex_Main "HOL-Library.AList" "HOL-Library.Char_ord" "HOL-Library.List_Lexorder"
begin

section \<open>The hyperparameter evolution engine of \<^verbatim>\<open>engine/evolve.py\<close>\<close>

text \<open>
  Python numbers (the hyperparameter values, the bounds, the pace, the patience and the
  fitness) are modelled as exact rationals: the properties below are about the control
  flow of the search, not about rounding errors of binary floating point. Python
  dictionaries are association lists with the dictionary's insertion order:
  \<open>AList.update\<close> replaces the value of a present key in place and appends an absent
  key, \<open>AList.delete\<close> is \<^verbatim>\<open>dict.pop\<close>, \<open>map_of\<close> is the lookup. Strings are
  ordered as Python orders them, character by character by code point. Integers are
  unbounded: the index arithmetic of line 112 is in 64-bit integers in the source,
  which agrees with it as long as no value reaches \<open>2 ^ 63\<close>; the widest row of the
  table has \<open>10 ^ 18\<close> steps, so this holds of every value within the limits of its
  row and every mutation rate up to 1.
\<close>

subsection \<open>Errors and numeric helpers\<close>

datatype py_error = KeyError | ZeroDivisionError | ValueError

text \<open>Python's \<^verbatim>\<open>round(x)\<close>: to the nearest integer, a tie to the even one.\<close>

definition round_py :: "rat \<Rightarrow> int" where
  "round_py x =
     (let f = \<lfloor>x\<rfloor>; d = x - of_int f
      in if d < 1 / 2 then f else if 1 / 2 < d then f + 1 else if even f then f else f + 1)"

text \<open>\<^verbatim>\<open>round(x, 3)\<close>.\<close>

definition round3 :: "rat \<Rightarrow> rat" where
  "round3 x = of_int (round_py (x * 1000)) / 1000"

text \<open>\<^verbatim>\<open>np.clip(x, a_min=lo, a_max=hi)\<close> is \<^verbatim>\<open>minimum(hi, maximum(x, lo))\<close>.\<close>

definition np_clip :: "'a::linorder \<Rightarrow> 'a \<Rightarrow> 'a \<Rightarrow> 'a" where
  "np_clip x lo hi = min hi (max x lo)"

text \<open>\<^verbatim>\<open>int(np.sign(x).item())\<close>.\<close>

definition sign_int :: "rat \<Rightarrow> int" where
  "sign_int x = (if 0 < x then 1 else if x < 0 then - 1 else 0)"

definition endswith :: "string \<Rightarrow> string \<Rightarrow> bool" where
  "endswith s suf = (length suf \<le> length s \<and> drop (length s - length suf) s = suf)"

definition startswith :: "string \<Rightarrow> string \<Rightarrow> bool" where
  "startswith s pre = (take (length pre) s = pre)"

subsection \<open>The data model\<close>

type_synonym hyp = "(string \<times> rat) list"

text \<open>A metadata row: \<^verbatim>\<open>[lower lim, upper lim, pace, patience, greedy momentum]\<close>.\<close>

record entry =
  lower_lim :: rat
  upper_lim :: rat
  pace :: rat
  patience :: rat
  m_greed :: int

type_synonym meta = "(string \<times> entry) list"

type_synonym profile = "rat \<times> rat \<times> rat"

text \<open>A row of the result log: the epoch it is recorded at, then
  \<^verbatim>\<open>(hyp, previous, current, momentum, fitness)\<close>.\<close>

type_synonym trial = "int \<times> string \<times> rat \<times> rat \<times> rat \<times> rat"

definition trial_fitness :: "trial \<Rightarrow> rat" where
  "trial_fitness t = (case t of (ep, k, pv, cu, mo, fi) \<Rightarrow> fi)"

text \<open>
  The engine object together with what \<^verbatim>\<open>__call__\<close> reads and writes around it:
  the two checkpoint files (\<open>hyp_f\<close>, \<open>state_f\<close>; \<open>None\<close> when the file does not exist),
  the state of numpy's global generator (\<open>gen\<close>), the list of the fitness function's
  invocations (\<open>calls\<close>) and the two locals \<open>epoch\<close> and \<open>best_fit\<close> of \<^verbatim>\<open>__call__\<close>.
\<close>

record engine =
  hyp :: hyp
  meta :: meta
  seed :: int
  patience0 :: rat
  result :: "trial list"
  hyp_f :: "hyp option"
  state_f :: "(meta \<times> int) option"
  gen :: nat
  calls :: "(hyp \<times> int) list"
  epoch :: int
  best_fit :: rat

subsection \<open>The classification table and \<^verbatim>\<open>set_meta\<close>\<close>

definition META_unique :: "(string \<times> profile) list" where
  "META_unique =
     [(''weight_decay'', 0, 1, 1 / 100000),
      (''fl_gamma'', 0, 3, 1 / 1000),
      (''hsv_h'', 0, 1 / 10, 1 / 100),
      (''hsv_s'', 0, 9 / 10, 1 / 100),
      (''hsv_v'', 0, 9 / 10, 1 / 100)]"

definition META_general :: "(string \<times> profile) list" where
  "META_general =
     [(''kernel'', 1, 99, 2),
      (''width'', 4, 2048, 4),
      (''depth'', 1, 10, 1),
      (''float'', 0, 10000000000, 1 / 100000000),
      (''uint'', 0, 10000000000, 1),
      (''proba'', 0, 1, 1 / 100)]"

text \<open>\<^verbatim>\<open>META[tier][key] + default_state\<close> with \<^verbatim>\<open>default_state = [self.patience, 0]\<close>.\<close>

definition with_default :: "rat \<Rightarrow> profile \<Rightarrow> entry" where
  "with_default P prof =
     (case prof of (l, u, p) \<Rightarrow>
        \<lparr>lower_lim = l, upper_lim = u, pace = p, patience = P, m_greed = 0\<rparr>)"

text \<open>The first loop of \<^verbatim>\<open>set_meta\<close>: the keys of the exact tier that are in \<open>hyp\<close>.\<close>

definition register_unique :: "(string \<times> profile) list \<Rightarrow> hyp \<Rightarrow> rat \<Rightarrow> meta \<Rightarrow> meta" where
  "register_unique uniq h P m0 =
     fold (\<lambda>(k, prof) m. AList.update k (with_default P prof) m)
          (filter (\<lambda>(k, prof). map_of h k \<noteq> None) uniq) m0"

text \<open>The second loop: for each suffix, in the table's order, the keys of \<open>hyp\<close> that
  end with \<^verbatim>\<open>_suffix\<close>, in the order of \<open>hyp\<close>.\<close>

definition register_general :: "(string \<times> profile) list \<Rightarrow> hyp \<Rightarrow> rat \<Rightarrow> meta \<Rightarrow> meta" where
  "register_general gen_tab h P m0 =
     fold (\<lambda>(suffix, prof) m.
             fold (\<lambda>k m'. AList.update k (with_default P prof) m')
                  (filter (\<lambda>k. endswith k (''_'' @ suffix)) (map fst h)) m)
          gen_tab m0"

definition set_meta_from ::
  "(string \<times> profile) list \<Rightarrow> (string \<times> profile) list \<Rightarrow> hyp \<Rightarrow> rat \<Rightarrow> meta" where
  "set_meta_from uniq gen_tab h P = register_general gen_tab h P (register_unique uniq h P [])"

definition set_meta :: "hyp \<Rightarrow> rat \<Rightarrow> meta" where
  "set_meta h P = set_meta_from META_unique META_general h P"

subsection \<open>The checkpoint\<close>

text \<open>
  \<^verbatim>\<open>save_or_load(save=True)\<close> writes \<open>hyp\<close> and the metadata with the seed under
  \<^verbatim>\<open>_seed\<close>; \<^verbatim>\<open>yaml.dump\<close> writes the keys of a mapping sorted, so a mapping read back
  has its keys in that order. \<^verbatim>\<open>save_or_load(save=False)\<close> reads each file that exists; every key
  of the loaded metadata that starts with an underscore is popped from it (the seed is
  the one the engine writes).
\<close>

definition save :: "engine \<Rightarrow> engine" where
  "save s = s\<lparr>hyp_f := Some (sort_key fst (hyp s)),
              state_f := Some (sort_key fst (meta s), seed s)\<rparr>"

definition load :: "engine \<Rightarrow> engine" where
  "load s =
     (let s1 = (case state_f s of
                  None \<Rightarrow> s
                | Some (m, sd) \<Rightarrow>
                    s\<lparr>meta := filter (\<lambda>(k, e). \<not> startswith k ''_'') m, seed := sd\<rparr>)
      in case hyp_f s1 of None \<Rightarrow> s1 | Some h \<Rightarrow> s1\<lparr>hyp := h\<rparr>)"

subsection \<open>The random generator\<close>

text \<open>
  numpy's generator is a parameter: \<open>seed_gen\<close> is the state after
  \<^verbatim>\<open>np.random.seed(n)\<close>, \<open>next_raw\<close> draws a raw number and advances the state.
  The three draws of the loop map a raw number into the range numpy returns.
\<close>

record rng =
  seed_gen :: "int \<Rightarrow> nat"
  next_raw :: "nat \<Rightarrow> nat \<times> nat"

text \<open>\<^verbatim>\<open>np.random.choice(keys, p=p / p.sum())\<close>: a zero sum makes every probability
  NaN, which numpy refuses; a key of probability zero is never drawn.\<close>

definition choice_p :: "rng \<Rightarrow> nat \<Rightarrow> (string \<times> rat) list \<Rightarrow> py_error + (string \<times> nat)" where
  "choice_p R g kws =
     (if sum_list (map snd kws) = 0 then Inl ValueError
      else let cands = filter (\<lambda>(k, w). w \<noteq> 0) kws;
               (u, g') = next_raw R g
           in Inr (fst (cands ! (u mod length cands)), g'))"

text \<open>\<^verbatim>\<open>np.random.choice((-1, 1))\<close>.\<close>

definition choice_sign :: "rng \<Rightarrow> nat \<Rightarrow> int \<times> nat" where
  "choice_sign R g = (let (u, g') = next_raw R g in (if even u then - 1 else 1, g'))"

text \<open>\<^verbatim>\<open>np.random.randint(1, hi + 1)\<close> for \<open>1 \<le> hi\<close> (the loop passes a maximum with 1).\<close>

definition randint1 :: "rng \<Rightarrow> nat \<Rightarrow> int \<Rightarrow> int \<times> nat" where
  "randint1 R g hi = (let (u, g') = next_raw R g in (1 + int (u mod nat hi), g'))"

subsection \<open>One iteration of the search loop\<close>

definition range_of :: "entry \<Rightarrow> int" where
  "range_of e = round_py ((upper_lim e - lower_lim e) / pace e)"

definition previous_index :: "entry \<Rightarrow> rat \<Rightarrow> int" where
  "previous_index e v = round_py ((v - lower_lim e) / pace e)"

text \<open>\<^verbatim>\<open>{0: 1, range_: -1}.get(previous, 0)\<close>: when \<^verbatim>\<open>range_\<close> is 0 the literal has one
  key, with the later value.\<close>

definition m_forced :: "int \<Rightarrow> int \<Rightarrow> int" where
  "m_forced rg prev = (if prev = rg then - 1 else if prev = 0 then 1 else 0)"

text \<open>Line 107: a random sign when both are zero, the sign of the sum otherwise.\<close>

definition resolve :: "rng \<Rightarrow> nat \<Rightarrow> int \<Rightarrow> int \<Rightarrow> int \<times> nat" where
  "resolve R g greed forced =
     (if \<not> (greed \<noteq> 0 \<or> forced \<noteq> 0) then choice_sign R g else (sgn (greed + forced), g))"

text \<open>What lines 96 to 109 compute before the branch on \<^verbatim>\<open>skip\<close>.\<close>

record decision =
  d_key :: string
  d_entry :: entry
  d_value :: rat
  d_range :: int
  d_previous :: int
  d_momentum :: int
  d_gen :: nat

definition decide :: "rng \<Rightarrow> engine \<Rightarrow> py_error + decision" where
  "decide R s =
     (let sd = seed s + 1 in
      if sd < 0 \<or> 4294967296 \<le> sd then Inl ValueError
      else case choice_p R (seed_gen R sd) (map (\<lambda>(k, e). (k, (patience e)\<^sup>2)) (meta s)) of
             Inl err \<Rightarrow> Inl err
           | Inr (k, g1) \<Rightarrow>
               (case map_of (meta s) k of
                  None \<Rightarrow> Inl KeyError
                | Some e \<Rightarrow>
                    if pace e = 0 then Inl ZeroDivisionError
                    else (case map_of (hyp s) k of
                            None \<Rightarrow> Inl KeyError
                          | Some v \<Rightarrow>
                              let rg = range_of e;
                                  prev = previous_index e v;
                                  (mom, g2) = resolve R g1 (m_greed e) (m_forced rg prev)
                              in Inr \<lparr>d_key = k, d_entry = e, d_value = v, d_range = rg,
                                      d_previous = prev, d_momentum = mom, d_gen = g2\<rparr>)))"

text \<open>Lines 112 to 118: the step, the candidate index, the realized momentum and the
  candidate value.\<close>

definition step_magnitude :: "rng \<Rightarrow> rat \<Rightarrow> decision \<Rightarrow> int" where
  "step_magnitude R mutation d =
     fst (randint1 R (d_gen d) (max 1 (round_py (of_int (d_previous d) * mutation))))"

definition candidate_index :: "rng \<Rightarrow> rat \<Rightarrow> decision \<Rightarrow> int" where
  "candidate_index R mutation d =
     np_clip (d_previous d + d_momentum d * step_magnitude R mutation d) 0 (d_range d)"

definition realized_momentum :: "rng \<Rightarrow> rat \<Rightarrow> decision \<Rightarrow> rat" where
  "realized_momentum R mutation d =
     round3 (np_clip (of_int (candidate_index R mutation d - d_previous d)
                        / (of_int (d_previous d) + 1 / 100000000)) (- 1) 1)"

definition candidate_value :: "rng \<Rightarrow> rat \<Rightarrow> decision \<Rightarrow> rat" where
  "candidate_value R mutation d =
     of_int (candidate_index R mutation d) * pace (d_entry d) + lower_lim (d_entry d)"

definition candidate_hyp :: "rng \<Rightarrow> rat \<Rightarrow> decision \<Rightarrow> engine \<Rightarrow> hyp" where
  "candidate_hyp R mutation d s = AList.update (d_key d) (candidate_value R mutation d) (hyp s)"

text \<open>Lines 122, 123 and 129: the fitness of the candidate (at the incremented epoch),
  the improvement and the patience after the update, before the clamp.\<close>

definition trial_fit :: "rng \<Rightarrow> (hyp \<Rightarrow> int \<Rightarrow> rat) \<Rightarrow> rat \<Rightarrow> decision \<Rightarrow> engine \<Rightarrow> rat" where
  "trial_fit R fitness mutation d s = fitness (candidate_hyp R mutation d s) (epoch s + 1)"

definition better :: "rng \<Rightarrow> (hyp \<Rightarrow> int \<Rightarrow> rat) \<Rightarrow> rat \<Rightarrow> decision \<Rightarrow> engine \<Rightarrow> rat" where
  "better R fitness mutation d s = trial_fit R fitness mutation d s - best_fit s"

definition new_patience :: "rng \<Rightarrow> (hyp \<Rightarrow> int \<Rightarrow> rat) \<Rightarrow> rat \<Rightarrow> decision \<Rightarrow> engine \<Rightarrow> rat" where
  "new_patience R fitness mutation d s =
     patience (d_entry d) + (if 0 < better R fitness mutation d s then 1 else - (1 / 2))"

text \<open>Line 130: the metadata row of the key after the trial, the patience clamped from
  above by twice \<^verbatim>\<open>self.patience\<close>.\<close>

definition trial_entry :: "rng \<Rightarrow> (hyp \<Rightarrow> int \<Rightarrow> rat) \<Rightarrow> rat \<Rightarrow> decision \<Rightarrow> engine \<Rightarrow> entry" where
  "trial_entry R fitness mutation d s =
     (d_entry d)\<lparr>patience := min (2 * patience0 s) (new_patience R fitness mutation d s),
                  m_greed := sign_int (realized_momentum R mutation d * better R fitness mutation d s)\<rparr>"

text \<open>Lines 111 to 132; the result is the engine and the flag \<^verbatim>\<open>skip\<close>.\<close>

definition trial_step ::
  "rng \<Rightarrow> (hyp \<Rightarrow> int \<Rightarrow> rat) \<Rightarrow> rat \<Rightarrow> decision \<Rightarrow> engine \<Rightarrow> engine \<times> bool" where
  "trial_step R fitness mutation d s =
     (let ep = epoch s + 1;
          (stp, g3) = randint1 R (d_gen d) (max 1 (round_py (of_int (d_previous d) * mutation)));
          h' = candidate_hyp R mutation d s;
          fit = trial_fit R fitness mutation d s;
          bt = better R fitness mutation d s;
          mom = realized_momentum R mutation d;
          pat = new_patience R fitness mutation d s;
          e' = trial_entry R fitness mutation d s;
          s1 = s\<lparr>epoch := ep, gen := g3,
                 calls := calls s @ [(h', ep)],
                 result := result s @ [(ep, d_key d, d_value d, candidate_value R mutation d, mom, fit)],
                 meta := AList.update (d_key d) e' (meta s)\<rparr>;
          s2 = (if 0 < bt then s1\<lparr>hyp := h', best_fit := fit\<rparr> else s1)
      in (s2, pat \<le> 0))"

text \<open>Lines 96 to 135: one pass through the body of the \<^verbatim>\<open>while\<close> loop.\<close>

definition step :: "rng \<Rightarrow> (hyp \<Rightarrow> int \<Rightarrow> rat) \<Rightarrow> rat \<Rightarrow> engine \<Rightarrow> py_error + engine" where
  "step R fitness mutation s =
     (case decide R s of
        Inl err \<Rightarrow> Inl err
      | Inr d \<Rightarrow>
          let s1 = s\<lparr>seed := seed s + 1, gen := d_gen d\<rparr>;
              (s2, skip) = (if d_momentum d = 0 then (s1, True)
                            else trial_step R fitness mutation d s1);
              s3 = (if skip then s2\<lparr>meta := AList.delete (d_key d) (meta s2)\<rparr> else s2)
          in Inr (save s3))"

subsection \<open>The loop and \<^verbatim>\<open>__call__\<close>\<close>

text \<open>The \<^verbatim>\<open>while\<close> loop of line 94. \<open>None\<close> is a loop that never ends; an exception
  ends it with \<open>Inl\<close>.\<close>

partial_function (option) evolve_loop ::
  "rng \<Rightarrow> (hyp \<Rightarrow> int \<Rightarrow> rat) \<Rightarrow> int \<Rightarrow> rat \<Rightarrow> engine \<Rightarrow> (py_error + engine) option" where
  "evolve_loop R fitness epochs mutation s =
     (if epoch s < epochs \<and> meta s \<noteq> []
      then (case step R fitness mutation s of
              Inl err \<Rightarrow> Some (Inl err)
            | Inr s' \<Rightarrow> evolve_loop R fitness epochs mutation s')
      else Some (Inr s))"

text \<open>
  Modelled from the spec: the class \<^verbatim>\<open>Result\<close> of \<^verbatim>\<open>engine/result.py\<close> is not
  among the sources. The spec's Evaluation Log is append-only with \<^verbatim>\<open>append\<close>,
  \<^verbatim>\<open>length()\<close> and \<^verbatim>\<open>max(fitness)\<close>: \<^verbatim>\<open>record(row, epoch)\<close> appends the row,
  \<^verbatim>\<open>len\<close> is the number of rows and the maximum is over the fitness column.
\<close>

definition max_fitness :: "trial list \<Rightarrow> rat" where
  "max_fitness l = (case l of [] \<Rightarrow> 0 | t # ts \<Rightarrow> fold max (map trial_fitness ts) (trial_fitness t))"

text \<open>
  Lines 83 to 93, before the loop: the epoch and the best fitness of the log, the load
  of the checkpoint, the baseline when the log is empty, and the save. With an empty log
  \<^verbatim>\<open>epoch\<close> is -1 and the baseline branch overwrites \<^verbatim>\<open>best_fit\<close>, so the maximum
  is only read of a log with rows.
\<close>

definition prepare :: "(hyp \<Rightarrow> int \<Rightarrow> rat) \<Rightarrow> engine \<Rightarrow> engine" where
  "prepare fitness s0 =
     (let s1 = load s0;
          s2 = (if result s1 = []
                then (let b = fitness (hyp s1) 0
                      in s1\<lparr>epoch := 0, best_fit := b,
                            calls := calls s1 @ [(hyp s1, 0)],
                            result := result s1 @ [(0, ''baseline'', 0, 0, 0, b)]\<rparr>)
                else s1\<lparr>epoch := int (length (result s1)) - 1,
                        best_fit := max_fitness (result s1)\<rparr>)
      in save s2)"

text \<open>\<^verbatim>\<open>__call__\<close>; the final engine stands for the returned \<^verbatim>\<open>self.hyp\<close>.\<close>

definition call ::
  "rng \<Rightarrow> (hyp \<Rightarrow> int \<Rightarrow> rat) \<Rightarrow> int \<Rightarrow> rat \<Rightarrow> engine \<Rightarrow> (py_error + engine) option" where
  "call R fitness epochs mutation s0 = evolve_loop R fitness epochs mutation (prepare fitness s0)"

text \<open>One pass of the loop as a relation between engine states, guard included, and the
  states a run passes through.\<close>

definition loop_step ::
  "rng \<Rightarrow> (hyp \<Rightarrow> int \<Rightarrow> rat) \<Rightarrow> int \<Rightarrow> rat \<Rightarrow> engine \<Rightarrow> engine \<Rightarrow> bool" where
  "loop_step R fitness epochs mutation s s' =
     (epoch s < epochs \<and> meta s \<noteq> [] \<and> step R fitness mutation s = Inr s')"

declare evolve_loop.simps [code]

subsection \<open>Invariants of a run\<close>

text \<open>Every active key is a key of the hyperparameter set.\<close>

definition meta_in_hyp :: "engine \<Rightarrow> bool" where
  "meta_in_hyp s = (fst ` set (meta s) \<subseteq> fst ` set (hyp s))"

text \<open>Every active key has a positive patience of at most twice the initial patience.\<close>

definition patience_inv :: "engine \<Rightarrow> bool" where
  "patience_inv s =
     (\<forall>(k, e) \<in> set (meta s). 0 < patience e \<and> patience e \<le> 2 * patience0 s)"

text \<open>Every active row carries the bounds and the pace of a row of the table.\<close>

definition table_meta :: "meta \<Rightarrow> bool" where
  "table_meta m =
     (\<forall>(k, e) \<in> set m. (lower_lim e, upper_lim e, pace e) \<in> snd ` set (META_unique @ META_general))"

subsection \<open>A concrete run\<close>

text \<open>A counter as generator, one minus the value of \<^verbatim>\<open>x_proba\<close> as fitness, and
  an engine as \<^verbatim>\<open>__init__\<close> builds it for two hyperparameters, one of them tunable,
  after the baseline row.\<close>

definition ex_rng :: rng where
  "ex_rng = \<lparr>seed_gen = (\<lambda>n. nat n), next_raw = (\<lambda>g. (g, g + 1))\<rparr>"

definition ex_fitness :: "hyp \<Rightarrow> int \<Rightarrow> rat" where
  "ex_fitness h ep = (case map_of h ''x_proba'' of None \<Rightarrow> 0 | Some v \<Rightarrow> 1 - v)"

definition ex_hyp :: hyp where
  "ex_hyp = [(''x_proba'', 1 / 2), (''lr'', 1 / 100)]"

definition ex_engine :: engine where
  "ex_engine =
     \<lparr>hyp = ex_hyp, meta = set_meta ex_hyp 2, seed = 0, patience0 = 2,
      result = [(0, ''baseline'', 0, 0, 0, 1 / 2)], hyp_f = None, state_f = None, gen = 0,
      calls = [(ex_hyp, 0)], epoch = 0, best_fit = 1 / 2\<rparr>"

text \<open>What the first iteration decides for it: a step down.\<close>

definition ex_decision :: decision where
  "ex_decision =
     \<lparr>d_key = ''x_proba'',
      d_entry = \<lparr>lower_lim = 0, upper_lim = 1, pace = 1 / 100, patience = 2, m_greed = 0\<rparr>,
      d_value = 1 / 2, d_range = 100, d_previous = 50, d_momentum = - 1, d_gen = 3\<rparr>"

text \<open>The same engine with an upward bias, whose trial is rejected.\<close>

definition ex_engine_up :: engine where
  "ex_engine_up =
     ex_engine\<lparr>meta := [(''x_proba'',
        \<lparr>lower_lim = 0, upper_lim = 1, pace = 1 / 100, patience = 2, m_greed = 1\<rparr>)]\<rparr>"

definition ex_decision_up :: decision where
  "ex_decision_up =
     \<lparr>d_key = ''x_proba'',
      d_entry = \<lparr>lower_lim = 0, upper_lim = 1, pace = 1 / 100, patience = 2, m_greed = 1\<rparr>,
      d_value = 1 / 2, d_range = 100, d_previous = 50, d_momentum = 1, d_gen = 2\<rparr>"

text \<open>The engine with \<^verbatim>\<open>x_proba\<close> at its lower and at its upper bound.\<close>

definition ex_engine_low :: engine where
  "ex_engine_low = ex_engine\<lparr>hyp := [(''x_proba'', 0), (''lr'', 1 / 100)]\<rparr>"

definition ex_decision_low :: decision where
  "ex_decision_low =
     \<lparr>d_key = ''x_proba'',
      d_entry = \<lparr>lower_lim = 0, upper_lim = 1, pace = 1 / 100, patience = 2, m_greed = 0\<rparr>,
      d_value = 0, d_range = 100, d_previous = 0, d_momentum = 1, d_gen = 2\<rparr>"

definition ex_engine_high :: engine where
  "ex_engine_high = ex_engine\<lparr>hyp := [(''x_proba'', 1), (''lr'', 1 / 100)]\<rparr>"

definition ex_decision_high :: decision where
  "ex_decision_high =
     \<lparr>d_key = ''x_proba'',
      d_entry = \<lparr>lower_lim = 0, upper_lim = 1, pace = 1 / 100, patience = 2, m_greed = 0\<rparr>,
      d_value = 1, d_range = 100, d_previous = 100, d_momentum = - 1, d_gen = 2\<rparr>"

text \<open>Two tunable keys, the second one at its lower bound with a downward bias: the
  bias and the forced direction cancel. Then the engine after that iteration, and what
  the next iteration decides.\<close>

definition ex_engine_pinned :: engine where
  "ex_engine_pinned =
     \<lparr>hyp = [(''y_proba'', 1 / 2), (''x_proba'', 0)],
      meta = [(''y_proba'',
                \<lparr>lower_lim = 0, upper_lim = 1, pace = 1 / 100, patience = 2, m_greed = 0\<rparr>),
              (''x_proba'',
                \<lparr>lower_lim = 0, upper_lim = 1, pace = 1 / 100, patience = 2, m_greed = - 1\<rparr>)],
      seed = 0, patience0 = 2, result = [(0, ''baseline'', 0, 0, 0, 1)], hyp_f = None,
      state_f = None, gen = 0, calls = [([(''y_proba'', 1 / 2), (''x_proba'', 0)], 0)],
      epoch = 0, best_fit = 1\<rparr>"

definition ex_decision_pinned :: decision where
  "ex_decision_pinned =
     \<lparr>d_key = ''x_proba'',
      d_entry = \<lparr>lower_lim = 0, upper_lim = 1, pace = 1 / 100, patience = 2, m_greed = - 1\<rparr>,
      d_value = 0, d_range = 100, d_previous = 0, d_momentum = 0, d_gen = 2\<rparr>"

definition ex_engine_pruned :: engine where
  "ex_engine_pruned =
     \<lparr>hyp = [(''y_proba'', 1 / 2), (''x_proba'', 0)],
      meta = [(''y_proba'',
                \<lparr>lower_lim = 0, upper_lim = 1, pace = 1 / 100, patience = 2, m_greed = 0\<rparr>)],
      seed = 1, patience0 = 2, result = [(0, ''baseline'', 0, 0, 0, 1)],
      hyp_f = Some [(''x_proba'', 0), (''y_proba'', 1 / 2)],
      state_f = Some ([(''y_proba'',
                \<lparr>lower_lim = 0, upper_lim = 1, pace = 1 / 100, patience = 2, m_greed = 0\<rparr>)], 1),
      gen = 2, calls = [([(''y_proba'', 1 / 2), (''x_proba'', 0)], 0)],
      epoch = 0, best_fit = 1\<rparr>"

definition ex_decision_after :: decision where
  "ex_decision_after =
     \<lparr>d_key = ''y_proba'',
      d_entry = \<lparr>lower_lim = 0, upper_lim = 1, pace = 1 / 100, patience = 2, m_greed = 0\<rparr>,
      d_value = 1 / 2, d_range = 100, d_previous = 50, d_momentum = 1, d_gen = 4\<rparr>"

text \<open>The engine with little patience left and an upward bias: the trial is rejected
  and exhausts the patience.\<close>

definition ex_engine_tired :: engine where
  "ex_engine_tired =
     ex_engine\<lparr>meta := [(''x_proba'',
        \<lparr>lower_lim = 0, upper_lim = 1, pace = 1 / 100, patience = 1 / 2, m_greed = 1\<rparr>)]\<rparr>"

definition ex_decision_tired :: decision where
  "ex_decision_tired =
     \<lparr>d_key = ''x_proba'',
      d_entry = \<lparr>lower_lim = 0, upper_lim = 1, pace = 1 / 100, patience = 1 / 2, m_greed = 1\<rparr>,
      d_value = 1 / 2, d_range = 100, d_previous = 50, d_momentum = 1, d_gen = 2\<rparr>"





section \<open>Properties\<close>

subsection \<open>What one iteration does\<close>

lemma choice_p_mem:
  assumes "choice_p R g kws = Inr (k, g')"
  shows "k \<in> fst ` set kws"
proof -
  let ?cands = "filter (\<lambda>(k, w). w \<noteq> 0) kws"
  from assms have nz: "sum_list (map snd kws) \<noteq> 0"
    by (auto simp: choice_p_def split: if_splits)
  have "?cands \<noteq> []"
  proof
    assume "?cands = []"
    then have "\<forall>x \<in> set kws. snd x = 0"
      by (auto simp: filter_empty_conv)
    then have "sum_list (map snd kws) = 0"
      by (induction kws) auto
    with nz show False by simp
  qed
  then have "?cands ! (fst (next_raw R g) mod length ?cands) \<in> set ?cands"
    by (intro nth_mem) simp
  moreover from assms nz have "k = fst (?cands ! (fst (next_raw R g) mod length ?cands))"
    by (auto simp: choice_p_def Let_def split: prod.splits)
  ultimately show ?thesis by auto
qed

lemma resolve_gen: "fst (resolve R g a b) \<in> {- 1, 0, 1}"
  by (auto simp: resolve_def choice_sign_def Let_def sgn_if split: prod.splits)

lemma decide_InrD:
  assumes "decide R s = Inr d"
  shows "map_of (meta s) (d_key d) = Some (d_entry d)"
    and "map_of (hyp s) (d_key d) = Some (d_value d)"
    and "pace (d_entry d) \<noteq> 0"
    and "d_range d = range_of (d_entry d)"
    and "d_previous d = previous_index (d_entry d) (d_value d)"
  using assms
  by (auto simp: decide_def Let_def split: if_splits sum.splits option.splits prod.splits)

lemma decide_momentum:
  assumes "decide R s = Inr d"
  shows "d_momentum d =
           (if m_greed (d_entry d) = 0 \<and> m_forced (d_range d) (d_previous d) = 0
            then d_momentum d
            else sgn (m_greed (d_entry d) + m_forced (d_range d) (d_previous d)))"
    and "d_momentum d \<in> {- 1, 0, 1}"
    and "m_greed (d_entry d) = 0 \<and> m_forced (d_range d) (d_previous d) = 0 \<Longrightarrow> d_momentum d \<noteq> 0"
  using assms
  by (auto simp: decide_def Let_def resolve_def choice_sign_def sgn_if
           split: if_splits sum.splits option.splits prod.splits)

lemma decide_key_mem: "decide R s = Inr d \<Longrightarrow> d_key d \<in> fst ` set (meta s)"
  by (drule decide_InrD(1)) (auto dest: map_of_SomeD intro: rev_image_eqI)

lemma decide_meta_nonempty: "decide R s = Inr d \<Longrightarrow> meta s \<noteq> []"
  by (drule decide_key_mem) auto

lemma step_error: "decide R s = Inl err \<Longrightarrow> step R f mu s = Inl err"
  by (simp add: step_def)

lemma step_skip:
  assumes "decide R s = Inr d" and "d_momentum d = 0"
  shows "step R f mu s =
           Inr (save (s\<lparr>seed := seed s + 1, gen := d_gen d,
                         meta := AList.delete (d_key d) (meta s)\<rparr>))"
  using assms by (simp add: step_def Let_def)

lemma step_skip_fields:
  assumes "decide R s = Inr d" and "d_momentum d = 0" and "step R f mu s = Inr s'"
  shows "hyp s' = hyp s" and "best_fit s' = best_fit s" and "epoch s' = epoch s"
    and "calls s' = calls s" and "result s' = result s"
    and "meta s' = AList.delete (d_key d) (meta s)"
    and "seed s' = seed s + 1" and "patience0 s' = patience0 s"
    and "hyp_f s' = Some (sort_key fst (hyp s'))"
    and "state_f s' = Some (sort_key fst (meta s'), seed s')"
  using assms by (auto simp: step_def Let_def save_def)

lemma step_trial_fields:
  assumes "decide R s = Inr d" and "d_momentum d \<noteq> 0" and "step R f mu s = Inr s'"
  shows "hyp s' = (if 0 < better R f mu d s then candidate_hyp R mu d s else hyp s)"
    and "best_fit s' = (if 0 < better R f mu d s then trial_fit R f mu d s else best_fit s)"
    and "epoch s' = epoch s + 1"
    and "calls s' = calls s @ [(candidate_hyp R mu d s, epoch s + 1)]"
    and "result s' = result s @ [(epoch s + 1, d_key d, d_value d, candidate_value R mu d,
                                  realized_momentum R mu d, trial_fit R f mu d s)]"
    and "meta s' = (if new_patience R f mu d s \<le> 0
                    then AList.delete (d_key d) (AList.update (d_key d) (trial_entry R f mu d s) (meta s))
                    else AList.update (d_key d) (trial_entry R f mu d s) (meta s))"
    and "seed s' = seed s + 1" and "patience0 s' = patience0 s"
    and "hyp_f s' = Some (sort_key fst (hyp s'))"
    and "state_f s' = Some (sort_key fst (meta s'), seed s')"
  using assms
  by (auto simp: step_def Let_def trial_step_def trial_entry_def better_def trial_fit_def
                 new_patience_def candidate_hyp_def save_def split: prod.splits)

subsection \<open>The rows of the table\<close>

lemma table_profile_ranges:
  "list_all (\<lambda>(k, l, u, p). p \<noteq> 0 \<and> 9 \<le> round_py ((u - l) / p)) (META_unique @ META_general)"
  by code_simp

lemma table_ranges:
  assumes "(lower_lim e, upper_lim e, pace e) \<in> snd ` set (META_unique @ META_general)"
  shows "9 \<le> range_of e" and "pace e \<noteq> 0"
  using assms table_profile_ranges
  unfolding list_all_iff range_of_def by force+

subsection \<open>The loop\<close>

lemma length_delete_less:
  "k \<in> fst ` set al \<Longrightarrow> length (AList.delete k al) < length al"
proof -
  assume "k \<in> fst ` set al"
  then obtain v where "(k, v) \<in> set al" by auto
  then show ?thesis
    unfolding AList.delete_eq by (rule length_filter_less) simp
qed

lemma length_update_mem:
  "k \<in> fst ` set al \<Longrightarrow> length (AList.update k v al) = length al"
  by (induction al) auto

lemma step_InrE:
  assumes "step R f mu s = Inr s'"
  obtains d where "decide R s = Inr d"
  using assms by (cases "decide R s") (auto simp: step_def)

lemma step_progress:
  assumes "step R f mu s = Inr s'"
  shows "(epoch s' = epoch s + 1 \<and> length (meta s') \<le> length (meta s))
       \<or> (epoch s' = epoch s \<and> length (meta s') < length (meta s))"
proof -
  from assms obtain d where d: "decide R s = Inr d" by (rule step_InrE)
  have k: "d_key d \<in> fst ` set (meta s)" by (rule decide_key_mem[OF d])
  show ?thesis
  proof (cases "d_momentum d = 0")
    case True
    from step_skip_fields(3,6)[OF d True assms] k show ?thesis
      by (simp add: length_delete_less)
  next
    case False
    have "length (AList.delete (d_key d) (AList.update (d_key d) e (meta s))) \<le> length (meta s)" for e
      using length_delete_le[of "d_key d" "AList.update (d_key d) e (meta s)"] k
      by (simp add: length_update_mem)
    with step_trial_fields(3,6)[OF d False assms] k show ?thesis
      by (simp add: length_update_mem)
  qed
qed

lemma step_measure:
  assumes "step R f mu s = Inr s'" and "epoch s < n"
  shows "nat (n - epoch s') + length (meta s') < nat (n - epoch s) + length (meta s)"
  using step_progress[OF assms(1)] assms(2) by auto

lemma evolve_loop_terminates: "\<exists>r. evolve_loop R f n mu s = Some r"
proof (induction "nat (n - epoch s) + length (meta s)" arbitrary: s rule: less_induct)
  case less
  show ?case
  proof (cases "epoch s < n \<and> meta s \<noteq> []")
    case False
    then show ?thesis by (subst evolve_loop.simps) auto
  next
    case True
    show ?thesis
    proof (cases "step R f mu s")
      case (Inl err)
      with True show ?thesis by (subst evolve_loop.simps) simp
    next
      case (Inr s')
      from step_measure[OF Inr] True
      have "nat (n - epoch s') + length (meta s') < nat (n - epoch s) + length (meta s)" by simp
      from less.hyps[OF this] obtain r where "evolve_loop R f n mu s' = Some r" by blast
      with True Inr show ?thesis by (subst evolve_loop.simps) simp
    qed
  qed
qed

lemma evolve_loop_reaches:
  "evolve_loop R f n mu s = Some (Inr s') \<Longrightarrow>
     (loop_step R f n mu)\<^sup>*\<^sup>* s s' \<and> \<not> (epoch s' < n \<and> meta s' \<noteq> [])"
proof (induction "nat (n - epoch s) + length (meta s)" arbitrary: s rule: less_induct)
  case less
  show ?case
  proof (cases "epoch s < n \<and> meta s \<noteq> []")
    case False
    with less.prems have "s' = s" by (subst (asm) evolve_loop.simps) auto
    with False show ?thesis by simp
  next
    case True
    show ?thesis
    proof (cases "step R f mu s")
      case (Inl err)
      with True less.prems show ?thesis by (subst (asm) evolve_loop.simps) simp
    next
      case (Inr s1)
      from step_measure[OF Inr] True
      have m: "nat (n - epoch s1) + length (meta s1) < nat (n - epoch s) + length (meta s)" by simp
      from True Inr less.prems have "evolve_loop R f n mu s1 = Some (Inr s')"
        by (subst (asm) evolve_loop.simps) simp
      from less.hyps[OF m this]
      have r: "(loop_step R f n mu)\<^sup>*\<^sup>* s1 s'" and e: "\<not> (epoch s' < n \<and> meta s' \<noteq> [])" by simp_all
      from True Inr have "loop_step R f n mu s s1" by (simp add: loop_step_def)
      then have "(loop_step R f n mu)\<^sup>*\<^sup>* s s'" using r by (rule converse_rtranclp_into_rtranclp)
      with e show ?thesis by simp
    qed
  qed
qed

subsection \<open>Keys of the metadata and of the hyperparameter set\<close>

lemma delete_key_gone: "k \<notin> fst ` set (AList.delete k al)"
  by (auto simp: AList.delete_eq)

lemma step_meta_keys:
  assumes "step R f mu s = Inr s'"
  shows "fst ` set (meta s') \<subseteq> fst ` set (meta s)"
proof -
  from assms obtain d where d: "decide R s = Inr d" by (rule step_InrE)
  have k: "d_key d \<in> fst ` set (meta s)" by (rule decide_key_mem[OF d])
  show ?thesis
  proof (cases "d_momentum d = 0")
    case True
    from step_skip_fields(6)[OF d True assms] show ?thesis
      using dom_delete_subset[of "d_key d" "meta s"] by simp
  next
    case False
    have u: "fst ` set (AList.update (d_key d) e (meta s)) = fst ` set (meta s)" for e
      using k by (auto simp: dom_update)
    have "fst ` set (AList.delete (d_key d) (AList.update (d_key d) e (meta s))) \<subseteq> fst ` set (meta s)" for e
      using dom_delete_subset[of "d_key d" "AList.update (d_key d) e (meta s)"] u[of e] by simp
    with step_trial_fields(6)[OF d False assms] u show ?thesis
      by (simp split: if_splits)
  qed
qed

lemma step_hyp_keys:
  assumes "step R f mu s = Inr s'"
  shows "fst ` set (hyp s) \<subseteq> fst ` set (hyp s')"
proof -
  from assms obtain d where d: "decide R s = Inr d" by (rule step_InrE)
  show ?thesis
  proof (cases "d_momentum d = 0")
    case True
    from step_skip_fields(1)[OF d True assms] show ?thesis by simp
  next
    case False
    from step_trial_fields(1)[OF d False assms] show ?thesis
      by (auto simp: candidate_hyp_def dom_update split: if_splits)
  qed
qed

lemma run_meta_keys:
  "(loop_step R f n mu)\<^sup>*\<^sup>* s s' \<Longrightarrow> fst ` set (meta s') \<subseteq> fst ` set (meta s)"
proof (induction rule: rtranclp_induct)
  case base
  show ?case by simp
next
  case (step y z)
  from step.hyps(2) have "fst ` set (meta z) \<subseteq> fst ` set (meta y)"
    by (auto simp: loop_step_def dest: step_meta_keys)
  with step.IH show ?case by blast
qed

lemma run_meta_in_hyp:
  "(loop_step R f n mu)\<^sup>*\<^sup>* s s' \<Longrightarrow> meta_in_hyp s \<Longrightarrow> meta_in_hyp s'"
proof (induction rule: rtranclp_induct)
  case base
  then show ?case by simp
next
  case (step y z)
  from step.hyps(2) have st: "step R f mu y = Inr z" by (simp add: loop_step_def)
  from step.IH step.prems have "meta_in_hyp y" by simp
  then have "fst ` set (meta y) \<subseteq> fst ` set (hyp y)" by (simp add: meta_in_hyp_def)
  with step_meta_keys[OF st] have "fst ` set (meta z) \<subseteq> fst ` set (hyp y)"
    by (rule subset_trans)
  then have "fst ` set (meta z) \<subseteq> fst ` set (hyp z)"
    using step_hyp_keys[OF st] by (rule subset_trans)
  then show ?case by (simp add: meta_in_hyp_def)
qed

lemma fold_update_keys:
  "fst ` set (fold (\<lambda>k m. AList.update k v m) ks m) = set ks \<union> fst ` set m"
  by (induction ks arbitrary: m) (auto simp: dom_update)

lemma register_general_keys:
  "fst ` set (register_general G h P m0) \<subseteq> fst ` set h \<union> fst ` set m0"
  unfolding register_general_def
proof (induction G arbitrary: m0)
  case Nil
  show ?case by simp
next
  case (Cons g G)
  obtain suffix prof where g: "g = (suffix, prof)" by (cases g)
  let ?m1 = "fold (\<lambda>k m'. AList.update k (with_default P prof) m')
                 (filter (\<lambda>k. endswith k (''_'' @ suffix)) (map fst h)) m0"
  have "fst ` set ?m1 \<subseteq> fst ` set h \<union> fst ` set m0"
    by (auto simp: fold_update_keys)
  with Cons.IH[of ?m1] show ?case by (auto simp: g)
qed

lemma fold_update_pairs_keys:
  "fst ` set (fold (\<lambda>(k, prof) m. AList.update k (g prof) m) xs m0) = fst ` set xs \<union> fst ` set m0"
proof (induction xs arbitrary: m0)
  case Nil
  show ?case by simp
next
  case (Cons x xs)
  obtain k prof where x: "x = (k, prof)" by (cases x)
  show ?case unfolding x by (simp add: Cons.IH dom_update)
qed

lemma register_unique_keys:
  "fst ` set (register_unique U h P m0) \<subseteq> fst ` set h \<union> fst ` set m0"
proof -
  have "fst ` set (filter (\<lambda>(k, prof). map_of h k \<noteq> None) U) \<subseteq> fst ` set h"
  proof
    fix k assume "k \<in> fst ` set (filter (\<lambda>(k, prof). map_of h k \<noteq> None) U)"
    then have "map_of h k \<noteq> None" by auto
    then show "k \<in> fst ` set h" by (simp add: map_of_eq_None_iff)
  qed
  then show ?thesis
    unfolding register_unique_def fold_update_pairs_keys by blast
qed

lemma set_meta_from_keys: "fst ` set (set_meta_from U G h P) \<subseteq> fst ` set h"
proof -
  have "fst ` set (register_unique U h P []) \<subseteq> fst ` set h"
    using register_unique_keys[of U h P "[]"] by simp
  with register_general_keys[of G h P "register_unique U h P []"] show ?thesis
    unfolding set_meta_from_def by blast
qed

subsection \<open>The checkpoint and the generator\<close>

lemma load_fields:
  "result (load s) = result s" "calls (load s) = calls s" "patience0 (load s) = patience0 s"
  "hyp (load s) = (case hyp_f s of None \<Rightarrow> hyp s | Some h \<Rightarrow> h)"
  by (simp_all add: load_def Let_def split: option.splits prod.splits)

lemma evolve_loop_done:
  "\<not> (epoch s < n \<and> meta s \<noteq> []) \<Longrightarrow> evolve_loop R f n mu s = Some (Inr s)"
  by (subst evolve_loop.simps) auto

lemma load_meta:
  "meta (load s) = (case state_f s of None \<Rightarrow> meta s
                    | Some (m, sd) \<Rightarrow> filter (\<lambda>(k, e). \<not> startswith k ''_'') m)"
  by (simp add: load_def Let_def split: option.splits prod.splits)

lemma load_meta_keys:
  "fst ` set (meta (load s))
     \<subseteq> fst ` set (case state_f s of None \<Rightarrow> meta s | Some (m, sd) \<Rightarrow> m)"
proof (cases "state_f s")
  case None
  then show ?thesis by (simp add: load_meta)
next
  case (Some a)
  obtain m sd where a: "a = (m, sd)" by (cases a)
  have "set (filter (\<lambda>(k, e). \<not> startswith k ''_'') m) \<subseteq> set m" by simp
  then have "fst ` set (filter (\<lambda>(k, e). \<not> startswith k ''_'') m) \<subseteq> fst ` set m"
    by (rule image_mono)
  then show ?thesis by (simp add: load_meta Some a)
qed

lemma prepare_meta_in_hyp:
  assumes "fst ` set (case state_f s of None \<Rightarrow> meta s | Some (m, sd) \<Rightarrow> m)
             \<subseteq> fst ` set (case hyp_f s of None \<Rightarrow> hyp s | Some h \<Rightarrow> h)"
  shows "meta_in_hyp (prepare f s)"
proof -
  have m: "meta (prepare f s) = meta (load s)" and h: "hyp (prepare f s) = hyp (load s)"
    by (simp_all add: prepare_def Let_def save_def)
  from load_meta_keys[of s] assms
  have "fst ` set (meta (load s)) \<subseteq> fst ` set (case hyp_f s of None \<Rightarrow> hyp s | Some h \<Rightarrow> h)"
    by (rule subset_trans)
  then show ?thesis by (simp add: meta_in_hyp_def m h load_fields(4))
qed

lemma decide_gen: "decide R (s\<lparr>gen := g\<rparr>) = decide R s"
  by (simp add: decide_def Let_def cong: sum.case_cong option.case_cong if_cong)

lemma step_gen: "step R f mu (s\<lparr>gen := g\<rparr>) = step R f mu s"
  by (simp add: step_def decide_gen Let_def cong: sum.case_cong)

lemma loop_gen_obs:
  assumes "\<And>t g. obs (t\<lparr>gen := g\<rparr>) = obs t"
  shows "map_option (map_sum id obs) (evolve_loop R f n mu (s\<lparr>gen := g\<rparr>))
       = map_option (map_sum id obs) (evolve_loop R f n mu s)"
proof (cases "epoch s < n \<and> meta s \<noteq> []")
  case True
  have "evolve_loop R f n mu (s\<lparr>gen := g\<rparr>)
          = (case step R f mu (s\<lparr>gen := g\<rparr>) of
               Inl err \<Rightarrow> Some (Inl err)
             | Inr s' \<Rightarrow> evolve_loop R f n mu s')"
    using True by (subst evolve_loop.simps[of R f n mu "s\<lparr>gen := g\<rparr>"]) simp
  also have "\<dots> = (case step R f mu s of
               Inl err \<Rightarrow> Some (Inl err)
             | Inr s' \<Rightarrow> evolve_loop R f n mu s')"
    by (simp only: step_gen)
  also have "\<dots> = evolve_loop R f n mu s"
    using True by (subst evolve_loop.simps[of R f n mu s]) simp
  finally show ?thesis by simp
next
  case False
  then have "evolve_loop R f n mu (s\<lparr>gen := g\<rparr>) = Some (Inr (s\<lparr>gen := g\<rparr>))"
    and "evolve_loop R f n mu s = Some (Inr s)"
    by (simp_all add: evolve_loop_done)
  then show ?thesis by (simp add: assms)
qed

lemma load_both_files:
  assumes "state_f s = Some st" and "hyp_f s = Some h0"
  shows "load (s\<lparr>hyp := h', meta := m', seed := sd', gen := g'\<rparr>) = (load s)\<lparr>gen := g'\<rparr>"
  using assms by (cases st) (simp add: load_def Let_def)

lemma prepare_both_files:
  assumes "state_f s = Some st" and "hyp_f s = Some h0"
  shows "prepare f (s\<lparr>hyp := h', meta := m', seed := sd', gen := g'\<rparr>) = (prepare f s)\<lparr>gen := g'\<rparr>"
  by (simp add: prepare_def Let_def load_both_files[OF assms] save_def)


subsection \<open>The metadata rows\<close>

lemma set_update_cases:
  "(k', e) \<in> set (AList.update k v al) \<Longrightarrow> (k' = k \<and> e = v) \<or> (k', e) \<in> set al"
  by (induction al) (auto split: if_splits)

lemma set_delete_subset: "set (AList.delete k al) \<subseteq> set al"
  by (auto simp: AList.delete_eq)

lemma set_delete_update: "set (AList.delete k (AList.update k v al)) \<subseteq> set al"
proof
  fix p assume p: "p \<in> set (AList.delete k (AList.update k v al))"
  obtain k' e where pe: "p = (k', e)" by (cases p)
  from p have "k' \<noteq> k" and "(k', e) \<in> set (AList.update k v al)"
    by (auto simp: AList.delete_eq pe)
  with set_update_cases[of k' e k v al] show "p \<in> set al" by (simp add: pe)
qed

lemma patience_invI:
  "(\<And>k e. (k, e) \<in> set (meta s) \<Longrightarrow> 0 < patience e \<and> patience e \<le> 2 * patience0 s)
     \<Longrightarrow> patience_inv s"
  by (auto simp: patience_inv_def)

lemma patience_invD:
  "patience_inv s \<Longrightarrow> (k, e) \<in> set (meta s) \<Longrightarrow> 0 < patience e \<and> patience e \<le> 2 * patience0 s"
  by (auto simp: patience_inv_def)

lemma trial_entry_patience:
  "patience (trial_entry R f mu d s) = min (2 * patience0 s) (new_patience R f mu d s)"
  by (simp add: trial_entry_def)

lemma step_patience_inv:
  assumes inv: "patience_inv s" and st: "step R f mu s = Inr s'"
  shows "patience_inv s'"
proof -
  from st obtain d where d: "decide R s = Inr d" by (rule step_InrE)
  have ent: "(d_key d, d_entry d) \<in> set (meta s)"
    by (rule map_of_SomeD[OF decide_InrD(1)[OF d]])
  from patience_invD[OF inv ent] have P: "0 < patience0 s" by simp
  show ?thesis
  proof (cases "d_momentum d = 0")
    case True
    show ?thesis
    proof (rule patience_invI)
      fix k e assume "(k, e) \<in> set (meta s')"
      with step_skip_fields(6)[OF d True st] set_delete_subset[of "d_key d" "meta s"]
      have "(k, e) \<in> set (meta s)" by auto
      from patience_invD[OF inv this] step_skip_fields(8)[OF d True st]
      show "0 < patience e \<and> patience e \<le> 2 * patience0 s'" by simp
    qed
  next
    case False
    note f = step_trial_fields[OF d False st]
    show ?thesis
    proof (rule patience_invI)
      fix k e assume ke: "(k, e) \<in> set (meta s')"
      have "(k, e) \<in> set (meta s) \<or> (0 < new_patience R f mu d s \<and> e = trial_entry R f mu d s)"
      proof (cases "new_patience R f mu d s \<le> 0")
        case True
        with f(6) ke set_delete_update[of "d_key d" "trial_entry R f mu d s" "meta s"]
        show ?thesis by auto
      next
        case False
        with f(6) ke have "(k, e) \<in> set (AList.update (d_key d) (trial_entry R f mu d s) (meta s))"
          by simp
        from set_update_cases[OF this] False show ?thesis by auto
      qed
      then show "0 < patience e \<and> patience e \<le> 2 * patience0 s'"
      proof
        assume "(k, e) \<in> set (meta s)"
        from patience_invD[OF inv this] f(8) show ?thesis by simp
      next
        assume "0 < new_patience R f mu d s \<and> e = trial_entry R f mu d s"
        with P f(8) show ?thesis by (simp add: trial_entry_patience)
      qed
    qed
  qed
qed

lemma run_patience_inv:
  "(loop_step R f n mu)\<^sup>*\<^sup>* s s' \<Longrightarrow> patience_inv s \<Longrightarrow> patience_inv s'"
proof (induction rule: rtranclp_induct)
  case base
  then show ?case by simp
next
  case (step y z)
  from step.hyps(2) have st: "step R f mu y = Inr z" by (simp add: loop_step_def)
  from step.IH step.prems have "patience_inv y" by simp
  then show ?case using st by (rule step_patience_inv)
qed

lemma trial_key_kept:
  assumes d: "decide R s = Inr d" and m: "d_momentum d \<noteq> 0" and st: "step R f mu s = Inr s'"
  shows "(d_key d \<in> fst ` set (meta s')) = (0 < new_patience R f mu d s)"
    and "map_of (meta s') (d_key d) =
           (if 0 < new_patience R f mu d s then Some (trial_entry R f mu d s) else None)"
proof -
  note f = step_trial_fields(6)[OF d m st]
  show "(d_key d \<in> fst ` set (meta s')) = (0 < new_patience R f mu d s)"
    using f by (simp add: delete_key_gone dom_update)
  show "map_of (meta s') (d_key d) =
           (if 0 < new_patience R f mu d s then Some (trial_entry R f mu d s) else None)"
    using f by (simp add: update_conv' delete_conv')
qed

lemma fold_update_const_all:
  assumes "\<And>k e. (k, e) \<in> set m \<Longrightarrow> Q e" and "Q v"
  shows "(k, e) \<in> set (fold (\<lambda>k m. AList.update k v m) ks m) \<Longrightarrow> Q e"
  using assms(1)
proof (induction ks arbitrary: m)
  case Nil
  then show ?case by simp
next
  case (Cons a ks)
  have "\<And>k e. (k, e) \<in> set (AList.update a v m) \<Longrightarrow> Q e"
    using set_update_cases[of _ _ a v m] Cons.prems(2) assms(2) by blast
  with Cons.IH[of "AList.update a v m"] Cons.prems(1) show ?case by simp
qed

lemma register_general_all:
  assumes "(k, e) \<in> set (register_general G h P m0)"
    and "\<And>k e. (k, e) \<in> set m0 \<Longrightarrow> Q e"
    and "\<And>suffix prof. (suffix, prof) \<in> set G \<Longrightarrow> Q (with_default P prof)"
  shows "Q e"
  using assms unfolding register_general_def
proof (induction G arbitrary: m0)
  case Nil
  then show ?case by simp
next
  case (Cons g G)
  obtain suffix prof where g: "g = (suffix, prof)" by (cases g)
  let ?m1 = "fold (\<lambda>k m'. AList.update k (with_default P prof) m')
                 (filter (\<lambda>k. endswith k (''_'' @ suffix)) (map fst h)) m0"
  have q: "Q (with_default P prof)" by (rule Cons.prems(3)[of suffix]) (simp add: g)
  have m1: "Q e'" if "(k', e') \<in> set ?m1" for k' e'
    using that by (rule fold_update_const_all[of m0 Q "with_default P prof", rotated 2])
      (rule Cons.prems(2), assumption, rule q)
  have rest: "Q (with_default P prof')" if "(suffix', prof') \<in> set G" for suffix' prof'
    by (rule Cons.prems(3)[of suffix']) (simp add: that)
  have mem: "(k, e) \<in> set (fold (\<lambda>(suffix, prof) m.
             fold (\<lambda>k m'. AList.update k (with_default P prof) m')
                  (filter (\<lambda>k. endswith k (''_'' @ suffix)) (map fst h)) m) G ?m1)"
    using Cons.prems(1) by (simp add: g)
  show ?case by (rule Cons.IH[OF mem m1 rest])
qed

lemma fold_update_pairs_all:
  assumes "(k, e) \<in> set (fold (\<lambda>(k, prof) m. AList.update k (with_default P prof) m) xs m0)"
    and "\<And>k e. (k, e) \<in> set m0 \<Longrightarrow> Q e"
    and "\<And>k prof. (k, prof) \<in> set xs \<Longrightarrow> Q (with_default P prof)"
  shows "Q e"
  using assms
proof (induction xs arbitrary: m0)
  case Nil
  then show ?case by simp
next
  case (Cons x xs)
  obtain k1 p1 where x: "x = (k1, p1)" by (cases x)
  have q: "Q (with_default P p1)" by (rule Cons.prems(3)[of k1]) (simp add: x)
  have m1: "Q e'" if "(k', e') \<in> set (AList.update k1 (with_default P p1) m0)" for k' e'
  proof -
    from set_update_cases[OF that] show ?thesis
    proof
      assume "k' = k1 \<and> e' = with_default P p1"
      with q show ?thesis by simp
    next
      assume "(k', e') \<in> set m0"
      then show ?thesis by (rule Cons.prems(2))
    qed
  qed
  have rest: "Q (with_default P prof')" if "(k', prof') \<in> set xs" for k' prof'
    by (rule Cons.prems(3)[of k']) (simp add: that)
  have mem: "(k, e) \<in> set (fold (\<lambda>(k, prof) m. AList.update k (with_default P prof) m) xs
                (AList.update k1 (with_default P p1) m0))"
    using Cons.prems(1) by (simp add: x)
  show ?case by (rule Cons.IH[OF mem m1 rest])
qed

lemma set_meta_from_all:
  assumes mem: "(k, e) \<in> set (set_meta_from U G h P)"
    and tab: "\<And>k prof. (k, prof) \<in> set (U @ G) \<Longrightarrow> Q (with_default P prof)"
  shows "Q e"
proof -
  have u: "Q e'" if "(k', e') \<in> set (register_unique U h P [])" for k' e'
  proof (rule fold_update_pairs_all[of k' e' P _ "[]" Q])
    from that show "(k', e') \<in> set (fold (\<lambda>(k, prof) m. AList.update k (with_default P prof) m)
        (filter (\<lambda>(k, prof). map_of h k \<noteq> None) U) [])"
      by (simp add: register_unique_def)
  next
    fix k e assume "(k, e) \<in> set ([] :: meta)"
    then show "Q e" by simp
  next
    fix k prof assume "(k, prof) \<in> set (filter (\<lambda>(k, prof). map_of h k \<noteq> None) U)"
    then have "(k, prof) \<in> set (U @ G)" by simp
    then show "Q (with_default P prof)" by (rule tab)
  qed
  have g: "Q (with_default P prof)" if "(suffix, prof) \<in> set G" for suffix prof
    by (rule tab[of suffix]) (simp add: that)
  from mem have "(k, e) \<in> set (register_general G h P (register_unique U h P []))"
    by (simp add: set_meta_from_def)
  then show ?thesis using u g by (rule register_general_all)
qed

lemma set_meta_entries:
  assumes "(k, e) \<in> set (set_meta h P)"
  shows "patience e = P" and "m_greed e = 0"
    and "(lower_lim e, upper_lim e, pace e) \<in> snd ` set (META_unique @ META_general)"
proof -
  let ?Q = "\<lambda>e. patience e = P \<and> m_greed e = 0
              \<and> (lower_lim e, upper_lim e, pace e) \<in> snd ` set (META_unique @ META_general)"
  have "?Q (with_default P prof)" if "(k, prof) \<in> set (META_unique @ META_general)" for k prof
  proof -
    obtain l u p where prof: "prof = (l, u, p)" by (cases prof)
    from that have "prof \<in> snd ` set (META_unique @ META_general)" by (rule rev_image_eqI) simp
    then show ?thesis by (simp add: with_default_def prof)
  qed
  have "(k, e) \<in> set (set_meta_from META_unique META_general h P)"
    using assms by (simp add: set_meta_def)
  then have "?Q e" using \<open>\<And>prof k. (k, prof) \<in> set (META_unique @ META_general) \<Longrightarrow> ?Q (with_default P prof)\<close>
    by (rule set_meta_from_all)
  then show "patience e = P" and "m_greed e = 0"
    and "(lower_lim e, upper_lim e, pace e) \<in> snd ` set (META_unique @ META_general)" by simp_all
qed

lemma set_meta_table: "table_meta (set_meta h P)"
  unfolding table_meta_def using set_meta_entries(3) by blast

lemma step_table_meta:
  assumes "table_meta (meta s)" and st: "step R f mu s = Inr s'"
  shows "table_meta (meta s')"
proof -
  from st obtain d where d: "decide R s = Inr d" by (rule step_InrE)
  have ent: "(d_key d, d_entry d) \<in> set (meta s)"
    by (rule map_of_SomeD[OF decide_InrD(1)[OF d]])
  have old: "(lower_lim e, upper_lim e, pace e) \<in> snd ` set (META_unique @ META_general)"
    if "(k, e) \<in> set (meta s)" for k e
    using assms(1) that unfolding table_meta_def by blast
  have new: "(lower_lim e, upper_lim e, pace e) \<in> snd ` set (META_unique @ META_general)"
    if "(k, e) \<in> set (meta s')" for k e
  proof (cases "d_momentum d = 0")
    case True
    with step_skip_fields(6)[OF d True st] that set_delete_subset[of "d_key d" "meta s"]
    have "(k, e) \<in> set (meta s)" by auto
    then show ?thesis by (rule old)
  next
    case False
    have "(k, e) \<in> set (AList.update (d_key d) (trial_entry R f mu d s) (meta s))"
      using step_trial_fields(6)[OF d False st] that
        set_delete_subset[of "d_key d" "AList.update (d_key d) (trial_entry R f mu d s) (meta s)"]
      by (auto split: if_splits)
    from set_update_cases[OF this] show ?thesis
    proof
      assume "k = d_key d \<and> e = trial_entry R f mu d s"
      with old[OF ent] show ?thesis by (simp add: trial_entry_def)
    next
      assume "(k, e) \<in> set (meta s)"
      then show ?thesis by (rule old)
    qed
  qed
  then show ?thesis unfolding table_meta_def by blast
qed

lemma run_table_meta:
  "(loop_step R f n mu)\<^sup>*\<^sup>* s s' \<Longrightarrow> table_meta (meta s) \<Longrightarrow> table_meta (meta s')"
proof (induction rule: rtranclp_induct)
  case base
  then show ?case by simp
next
  case (step y z)
  from step.hyps(2) have st: "step R f mu y = Inr z" by (simp add: loop_step_def)
  from step.IH step.prems have "table_meta (meta y)" by simp
  then show ?case using st by (rule step_table_meta)
qed

lemma forced_at_zero_range: "m_forced 0 0 = - 1"
  by (simp add: m_forced_def)

lemma table_meta_decide_range:
  assumes "table_meta (meta s)" and d: "decide R s = Inr d"
  shows "9 \<le> d_range d"
proof -
  have "(d_key d, d_entry d) \<in> set (meta s)"
    by (rule map_of_SomeD[OF decide_InrD(1)[OF d]])
  with assms(1) have "(lower_lim (d_entry d), upper_lim (d_entry d), pace (d_entry d))
      \<in> snd ` set (META_unique @ META_general)"
    unfolding table_meta_def by blast
  from table_ranges(1)[OF this] decide_InrD(4)[OF d] show ?thesis by simp
qed


subsection \<open>What \<^verbatim>\<open>set_meta\<close> registers for a key\<close>

lemma map_of_fold_update_const:
  "map_of (fold (\<lambda>k m. AList.update k v m) ks m) k' = (if k' \<in> set ks then Some v else map_of m k')"
  by (induction ks arbitrary: m) (auto simp: update_conv')

lemma register_general_lookup:
  assumes "k \<in> fst ` set h"
    and "\<And>s' p'. (s', p') \<in> set G \<Longrightarrow> endswith k (''_'' @ s') \<Longrightarrow> p' = pg"
    and "(\<exists>(s', p') \<in> set G. endswith k (''_'' @ s')) \<or> map_of m0 k = Some (with_default P pg)"
  shows "map_of (register_general G h P m0) k = Some (with_default P pg)"
  using assms(2,3) unfolding register_general_def
proof (induction G arbitrary: m0)
  case Nil
  then show ?case by simp
next
  case (Cons g G)
  obtain s1 p1 where g: "g = (s1, p1)" by (cases g)
  let ?m1 = "fold (\<lambda>k m'. AList.update k (with_default P p1) m')
                 (filter (\<lambda>k. endswith k (''_'' @ s1)) (map fst h)) m0"
  have m1: "map_of ?m1 k = (if endswith k (''_'' @ s1) then Some (with_default P p1) else map_of m0 k)"
    using assms(1) by (simp add: map_of_fold_update_const)
  have p1: "p1 = pg" if "endswith k (''_'' @ s1)"
    by (rule Cons.prems(1)[of s1 p1, OF _ that]) (simp add: g)
  have rest: "p' = pg" if "(s', p') \<in> set G" "endswith k (''_'' @ s')" for s' p'
    by (rule Cons.prems(1)[of s' p', OF _ that(2)]) (simp add: that(1))
  have "(\<exists>(s', p') \<in> set G. endswith k (''_'' @ s')) \<or> map_of ?m1 k = Some (with_default P pg)"
  proof (cases "\<exists>(s', p') \<in> set G. endswith k (''_'' @ s')")
    case True
    then show ?thesis by simp
  next
    case False
    show ?thesis
    proof (cases "endswith k (''_'' @ s1)")
      case True
      with p1 m1 show ?thesis by simp
    next
      case no: False
      with False Cons.prems(2) have "map_of m0 k = Some (with_default P pg)" by (auto simp: g)
      with no m1 show ?thesis by simp
    qed
  qed
  with Cons.IH[of ?m1, OF rest] show ?case by (simp add: g)
qed











subsection \<open>The concrete run, evaluated\<close>


lemma ex_decide_tired: "decide ex_rng ex_engine_tired = Inr ex_decision_tired"
  by code_simp


lemma ex_decide: "decide ex_rng ex_engine = Inr ex_decision"
  by code_simp

lemma ex_decide_up: "decide ex_rng ex_engine_up = Inr ex_decision_up"
  by code_simp

lemma ex_decide_low: "decide ex_rng ex_engine_low = Inr ex_decision_low"
  by code_simp

lemma ex_decide_high: "decide ex_rng ex_engine_high = Inr ex_decision_high"
  by code_simp

lemma ex_decide_pinned: "decide ex_rng ex_engine_pinned = Inr ex_decision_pinned"
  by code_simp

lemma ex_step_pinned: "step ex_rng ex_fitness (1 / 2) ex_engine_pinned = Inr ex_engine_pruned"
  by code_simp

lemma ex_decide_after: "decide ex_rng ex_engine_pruned = Inr ex_decision_after"
  by code_simp

lemma decide_step_ex:
  assumes "decide R s = Inr d"
  obtains s' where "step R f mu s = Inr s'"
proof -
  from assms have "\<exists>s'. step R f mu s = Inr s'"
    by (simp add: step_def Let_def split: prod.splits)
  then show ?thesis using that by blast
qed

section \<open>The claims\<close>

subsection \<open>C1: acceptance\<close>

text \<open>
  C1. In an iteration that evaluates a trial (the resolved direction is not 0), when the
  improvement \<open>better\<close>, the fitness of the candidate minus the best known fitness, is
  strictly positive, the hyperparameter mapping after the iteration is the mapping before
  it with the selected key set to the candidate value, and the best known fitness is the
  fitness of the candidate; otherwise the mapping and the best known fitness are the ones
  before the iteration.
\<close>

theorem accept_or_reject:
  assumes "decide R s = Inr d" and "d_momentum d \<noteq> 0" and "step R fitness mutation s = Inr s'"
  shows "hyp s' = (if 0 < better R fitness mutation d s
                   then AList.update (d_key d) (candidate_value R mutation d) (hyp s)
                   else hyp s)
       \<and> best_fit s' = (if 0 < better R fitness mutation d s
                        then fitness (AList.update (d_key d) (candidate_value R mutation d) (hyp s)) (epoch s + 1)
                        else best_fit s)
       \<and> better R fitness mutation d s =
           fitness (AList.update (d_key d) (candidate_value R mutation d) (hyp s)) (epoch s + 1) - best_fit s"
  using step_trial_fields(1,2)[OF assms]
  by (simp_all add: candidate_hyp_def trial_fit_def better_def)

theorem accept_or_reject_witness:
  "decide ex_rng ex_engine = Inr ex_decision \<and> d_momentum ex_decision \<noteq> 0
   \<and> (\<exists>s'. step ex_rng ex_fitness (1 / 2) ex_engine = Inr s'
         \<and> better ex_rng ex_fitness (1 / 2) ex_decision ex_engine = 1 / 25
         \<and> hyp s' = [(''x_proba'', 23 / 50), (''lr'', 1 / 100)] \<and> best_fit s' = 27 / 50)
   \<and> decide ex_rng ex_engine_up = Inr ex_decision_up \<and> d_momentum ex_decision_up \<noteq> 0
   \<and> (\<exists>s'. step ex_rng ex_fitness (1 / 2) ex_engine_up = Inr s'
         \<and> better ex_rng ex_fitness (1 / 2) ex_decision_up ex_engine_up = - (3 / 100)
         \<and> hyp s' = hyp ex_engine_up \<and> best_fit s' = best_fit ex_engine_up)"
proof -
  have m: "d_momentum ex_decision \<noteq> 0" by code_simp
  obtain s' where s': "step ex_rng ex_fitness (1 / 2) ex_engine = Inr s'"
    using ex_decide by (rule decide_step_ex)
  have b: "better ex_rng ex_fitness (1 / 2) ex_decision ex_engine = 1 / 25" by code_simp
  have h: "AList.update (d_key ex_decision) (candidate_value ex_rng (1 / 2) ex_decision) (hyp ex_engine)
             = [(''x_proba'', 23 / 50), (''lr'', 1 / 100)]" by code_simp
  have f: "ex_fitness [(''x_proba'', 23 / 50), (''lr'', 1 / 100)] (epoch ex_engine + 1) = 27 / 50"
    by code_simp
  from accept_or_reject[OF ex_decide m s'] b h f
  have 1: "hyp s' = [(''x_proba'', 23 / 50), (''lr'', 1 / 100)] \<and> best_fit s' = 27 / 50" by simp
  have mu: "d_momentum ex_decision_up \<noteq> 0" by code_simp
  obtain t' where t': "step ex_rng ex_fitness (1 / 2) ex_engine_up = Inr t'"
    using ex_decide_up by (rule decide_step_ex)
  have bu: "better ex_rng ex_fitness (1 / 2) ex_decision_up ex_engine_up = - (3 / 100)" by code_simp
  from accept_or_reject[OF ex_decide_up mu t'] bu
  have 2: "hyp t' = hyp ex_engine_up \<and> best_fit t' = best_fit ex_engine_up" by simp
  from ex_decide m s' b 1 ex_decide_up mu t' bu 2 show ?thesis by blast
qed

subsection \<open>C2: the direction at the bounds\<close>

text \<open>
  C2. For the selected key with directional bias 0: when the previous index is 0 the
  resolved direction is +1, and when the previous index is the range the resolved
  direction is -1. The two bounds are distinct indices, the range is not 0: this holds
  of every row of the table (\<open>table_ranges\<close>), so of the selected key in every state
  whose rows come from the table (\<open>table_meta_decide_range\<close>), as \<^verbatim>\<open>set_meta\<close> builds
  them (\<open>set_meta_table\<close>) and the loop keeps them (\<open>run_table_meta\<close>). With a range of
  0 both cases would apply at once, and the lookup of line 106 then gives -1
  (\<open>forced_at_zero_range\<close>).
\<close>

theorem direction_at_bounds:
  assumes "decide R s = Inr d" and "m_greed (d_entry d) = 0" and "d_range d \<noteq> 0"
  shows "(d_previous d = 0 \<longrightarrow> d_momentum d = 1)
       \<and> (d_previous d = d_range d \<longrightarrow> d_momentum d = - 1)"
  using decide_momentum(1)[OF assms(1)] assms(2,3)
  by (auto simp: m_forced_def split: if_splits)

theorem direction_at_bounds_witness:
  "decide ex_rng ex_engine_low = Inr ex_decision_low \<and> m_greed (d_entry ex_decision_low) = 0
   \<and> d_range ex_decision_low \<noteq> 0 \<and> d_previous ex_decision_low = 0
   \<and> d_momentum ex_decision_low = 1
   \<and> decide ex_rng ex_engine_high = Inr ex_decision_high \<and> m_greed (d_entry ex_decision_high) = 0
   \<and> d_range ex_decision_high \<noteq> 0 \<and> d_previous ex_decision_high = d_range ex_decision_high
   \<and> d_momentum ex_decision_high = - 1"
proof -
  have l: "m_greed (d_entry ex_decision_low) = 0" "d_range ex_decision_low \<noteq> 0"
    "d_previous ex_decision_low = 0" by code_simp+
  have h: "m_greed (d_entry ex_decision_high) = 0" "d_range ex_decision_high \<noteq> 0"
    "d_previous ex_decision_high = d_range ex_decision_high" by code_simp+
  from direction_at_bounds[OF ex_decide_low l(1,2)] l(3)
  have 1: "d_momentum ex_decision_low = 1" by simp
  from direction_at_bounds[OF ex_decide_high h(1,2)] h(3)
  have 2: "d_momentum ex_decision_high = - 1" by simp
  from ex_decide_low l 1 ex_decide_high h 2 show ?thesis by blast
qed

subsection \<open>C4: the candidate index\<close>

text \<open>
  C4. Whatever the resolved direction and the drawn step magnitude are (the decision \<open>d\<close>
  and the generator \<open>R\<close> are arbitrary), the candidate index of a trial lies in the
  interval from 0 to the range of the selected key, both included; the interval is not
  empty, the range is not negative, as for every row of the table (\<open>table_ranges\<close>,
  \<open>table_meta_decide_range\<close>).
\<close>

theorem candidate_index_in_range:
  assumes "0 \<le> d_range d"
  shows "0 \<le> candidate_index R mutation d \<and> candidate_index R mutation d \<le> d_range d"
  using assms by (simp add: candidate_index_def np_clip_def)

theorem candidate_index_in_range_witness:
  "0 \<le> d_range ex_decision \<and> candidate_index ex_rng (1 / 2) ex_decision = 46
   \<and> 0 \<le> candidate_index ex_rng (1 / 2) ex_decision
   \<and> candidate_index ex_rng (1 / 2) ex_decision \<le> d_range ex_decision"
proof -
  have r: "0 \<le> d_range ex_decision" by code_simp
  have c: "candidate_index ex_rng (1 / 2) ex_decision = 46" by code_simp
  from candidate_index_in_range[OF r, of ex_rng "1 / 2"] r c show ?thesis by blast
qed

subsection \<open>C5: the skip-and-prune branch\<close>

text \<open>
  C5. When the resolved direction of the selected key is 0, which happens exactly when the
  directional bias is not 0 and the forced direction is its opposite, the iteration calls
  the fitness function not at all, appends no row to the log, leaves the epoch counter as
  it is and removes the key from the metadata; the key is in the metadata of no later
  state of the run.
\<close>

theorem skip_and_prune:
  assumes "decide R s = Inr d" and "d_momentum d = 0"
    and "step R fitness mutation s = Inr s'"
    and "(loop_step R fitness epochs mutation)\<^sup>*\<^sup>* s' s''"
  shows "calls s' = calls s \<and> result s' = result s \<and> epoch s' = epoch s
       \<and> d_key d \<in> fst ` set (meta s) \<and> d_key d \<notin> fst ` set (meta s')
       \<and> d_key d \<notin> fst ` set (meta s'')
       \<and> m_greed (d_entry d) \<noteq> 0
       \<and> m_forced (d_range d) (d_previous d) = - m_greed (d_entry d)"
proof -
  have gone: "d_key d \<notin> fst ` set (meta s')"
    using step_skip_fields(6)[OF assms(1-3)] by (simp add: delete_key_gone)
  with run_meta_keys[OF assms(4)] have later: "d_key d \<notin> fst ` set (meta s'')" by blast
  have "\<not> (m_greed (d_entry d) = 0 \<and> m_forced (d_range d) (d_previous d) = 0)"
    using decide_momentum(3)[OF assms(1)] assms(2) by blast
  with decide_momentum(1)[OF assms(1)] assms(2)
  have cancel: "m_greed (d_entry d) + m_forced (d_range d) (d_previous d) = 0"
    by (simp add: sgn_if split: if_splits)
  have "m_greed (d_entry d) \<noteq> 0"
    using cancel \<open>\<not> (m_greed (d_entry d) = 0 \<and> m_forced (d_range d) (d_previous d) = 0)\<close>
    by auto
  with cancel gone later decide_key_mem[OF assms(1)] step_skip_fields(3,4,5)[OF assms(1-3)]
  show ?thesis by simp
qed

theorem skip_and_prune_witness:
  "decide ex_rng ex_engine_pinned = Inr ex_decision_pinned \<and> d_momentum ex_decision_pinned = 0
   \<and> step ex_rng ex_fitness (1 / 2) ex_engine_pinned = Inr ex_engine_pruned
   \<and> (\<exists>s''. loop_step ex_rng ex_fitness 3 (1 / 2) ex_engine_pruned s''
          \<and> calls ex_engine_pruned = calls ex_engine_pinned
          \<and> result ex_engine_pruned = result ex_engine_pinned
          \<and> epoch ex_engine_pruned = epoch ex_engine_pinned
          \<and> d_key ex_decision_pinned = ''x_proba''
          \<and> ''x_proba'' \<in> fst ` set (meta ex_engine_pinned)
          \<and> ''x_proba'' \<notin> fst ` set (meta ex_engine_pruned)
          \<and> ''x_proba'' \<notin> fst ` set (meta s''))"
proof -
  have m: "d_momentum ex_decision_pinned = 0" and k: "d_key ex_decision_pinned = ''x_proba''"
    by code_simp+
  obtain s'' where s'': "step ex_rng ex_fitness (1 / 2) ex_engine_pruned = Inr s''"
    using ex_decide_after by (rule decide_step_ex)
  have g: "epoch ex_engine_pruned < 3" "meta ex_engine_pruned \<noteq> []" by code_simp+
  with s'' have l: "loop_step ex_rng ex_fitness 3 (1 / 2) ex_engine_pruned s''"
    by (simp add: loop_step_def)
  then have r: "(loop_step ex_rng ex_fitness 3 (1 / 2))\<^sup>*\<^sup>* ex_engine_pruned s''" by (rule r_into_rtranclp)
  from skip_and_prune[OF ex_decide_pinned m ex_step_pinned r] k ex_decide_pinned m ex_step_pinned l
  show ?thesis by auto
qed

subsection \<open>C9: the active keys are keys of the hyperparameter set\<close>

text \<open>
  C9. \<^verbatim>\<open>set_meta\<close> registers only keys of the hyperparameter mapping; an iteration of
  the loop adds no key to the metadata and removes none from the hyperparameter mapping.
  So the metadata keys of every state of a run are among those of the state it started
  from, and if every active key is a key of the hyperparameter set at the start of the
  loop, this holds in every state of the run. It holds at the start of the loop when
  the metadata that \<^verbatim>\<open>__call__\<close> loads, or keeps, has its keys in the hyperparameter
  mapping it loads, or keeps (\<open>prepare_meta_in_hyp\<close>).
\<close>

theorem meta_keys_in_hyp:
  "fst ` set (set_meta h P) \<subseteq> fst ` set h
   \<and> ((loop_step R fitness epochs mutation)\<^sup>*\<^sup>* s s' \<longrightarrow>
        fst ` set (meta s') \<subseteq> fst ` set (meta s)
        \<and> fst ` set (hyp s) \<subseteq> fst ` set (hyp s')
        \<and> (meta_in_hyp s \<longrightarrow> meta_in_hyp s'))"
proof -
  have "fst ` set (hyp s) \<subseteq> fst ` set (hyp s')" if "(loop_step R fitness epochs mutation)\<^sup>*\<^sup>* s s'"
    using that
  proof (induction rule: rtranclp_induct)
    case base
    show ?case by simp
  next
    case (step y z)
    from step.hyps(2) have "fst ` set (hyp y) \<subseteq> fst ` set (hyp z)"
      by (auto simp: loop_step_def dest: step_hyp_keys)
    with step.IH show ?case by (rule subset_trans)
  qed
  then show ?thesis
    using set_meta_from_keys[of META_unique META_general h P] run_meta_keys[of R fitness epochs mutation s s']
      run_meta_in_hyp[of R fitness epochs mutation s s']
    unfolding set_meta_def by blast
qed

theorem meta_keys_in_hyp_witness:
  "map fst (set_meta (hyp ex_engine_pinned) 2) = [''y_proba'', ''x_proba'']
   \<and> fst ` set (set_meta (hyp ex_engine_pinned) 2) \<subseteq> fst ` set (hyp ex_engine_pinned)
   \<and> meta_in_hyp ex_engine_pinned
   \<and> (loop_step ex_rng ex_fitness 3 (1 / 2))\<^sup>*\<^sup>* ex_engine_pinned ex_engine_pruned
   \<and> fst ` set (meta ex_engine_pruned) \<subseteq> fst ` set (meta ex_engine_pinned)
   \<and> meta_in_hyp ex_engine_pruned"
proof -
  have a: "map fst (set_meta (hyp ex_engine_pinned) 2) = [''y_proba'', ''x_proba'']"
    by code_simp
  have i: "meta_in_hyp ex_engine_pinned" by code_simp
  have g: "epoch ex_engine_pinned < 3" "meta ex_engine_pinned \<noteq> []" by code_simp+
  with ex_step_pinned have "loop_step ex_rng ex_fitness 3 (1 / 2) ex_engine_pinned ex_engine_pruned"
    by (simp add: loop_step_def)
  then have r: "(loop_step ex_rng ex_fitness 3 (1 / 2))\<^sup>*\<^sup>* ex_engine_pinned ex_engine_pruned"
    by (rule r_into_rtranclp)
  from meta_keys_in_hyp[of "hyp ex_engine_pinned" 2 ex_rng ex_fitness 3 "1 / 2" ex_engine_pinned ex_engine_pruned]
    a i r
  show ?thesis by blast
qed

subsection \<open>C10: termination\<close>

text \<open>
  C10. For every generator, fitness function, budget, mutation fraction and engine state
  the loop ends, with the final engine or with an exception, and so does \<^verbatim>\<open>__call__\<close>:
  an iteration either increments the epoch counter, which was below the budget, and does
  not lengthen the metadata, or keeps the counter and shortens the metadata.
\<close>

theorem search_terminates:
  "(\<exists>r. evolve_loop R fitness epochs mutation s = Some r)
   \<and> (\<exists>r. call R fitness epochs mutation s = Some r)
   \<and> (loop_step R fitness epochs mutation s s' \<longrightarrow>
        (epoch s' = epoch s + 1 \<and> epoch s' \<le> epochs \<and> length (meta s') \<le> length (meta s))
        \<or> (epoch s' = epoch s \<and> length (meta s') < length (meta s)))"
proof -
  have "(epoch s' = epoch s + 1 \<and> epoch s' \<le> epochs \<and> length (meta s') \<le> length (meta s))
        \<or> (epoch s' = epoch s \<and> length (meta s') < length (meta s))"
    if "loop_step R fitness epochs mutation s s'"
  proof -
    from that have st: "step R fitness mutation s = Inr s'" and lt: "epoch s < epochs"
      by (simp_all add: loop_step_def)
    from step_progress[OF st] lt show ?thesis by auto
  qed
  moreover have "\<exists>r. call R fitness epochs mutation s = Some r"
    unfolding call_def by (rule evolve_loop_terminates)
  ultimately show ?thesis using evolve_loop_terminates[of R fitness epochs mutation s] by blast
qed

theorem search_terminates_witness:
  "loop_step ex_rng ex_fitness 3 (1 / 2) ex_engine_pinned ex_engine_pruned
   \<and> epoch ex_engine_pruned = epoch ex_engine_pinned
   \<and> length (meta ex_engine_pruned) < length (meta ex_engine_pinned)
   \<and> (\<exists>s'. loop_step ex_rng ex_fitness 3 (1 / 2) ex_engine_pruned s'
          \<and> epoch s' = epoch ex_engine_pruned + 1 \<and> epoch s' \<le> 3
          \<and> length (meta s') \<le> length (meta ex_engine_pruned))
   \<and> (\<exists>r. evolve_loop ex_rng ex_fitness 3 (1 / 2) ex_engine_pinned = Some r)
   \<and> (\<exists>r. call ex_rng ex_fitness 3 (1 / 2) ex_engine_pinned = Some r)"
proof -
  have g: "epoch ex_engine_pinned < 3" "meta ex_engine_pinned \<noteq> []" by code_simp+
  with ex_step_pinned have l1: "loop_step ex_rng ex_fitness 3 (1 / 2) ex_engine_pinned ex_engine_pruned"
    by (simp add: loop_step_def)
  have e: "epoch ex_engine_pruned = epoch ex_engine_pinned" 
    and n: "length (meta ex_engine_pruned) < length (meta ex_engine_pinned)" by code_simp+
  obtain s' where s': "step ex_rng ex_fitness (1 / 2) ex_engine_pruned = Inr s'"
    using ex_decide_after by (rule decide_step_ex)
  have g2: "epoch ex_engine_pruned < 3" "meta ex_engine_pruned \<noteq> []" by code_simp+
  with s' have l2: "loop_step ex_rng ex_fitness 3 (1 / 2) ex_engine_pruned s'"
    by (simp add: loop_step_def)
  have ne: "d_momentum ex_decision_after \<noteq> 0" by code_simp
  have ep: "epoch s' = epoch ex_engine_pruned + 1"
    by (rule step_trial_fields(3)[OF ex_decide_after ne s'])
  from search_terminates[of ex_rng ex_fitness 3 "1 / 2" ex_engine_pruned s'] l2 ep
  have "epoch s' \<le> 3 \<and> length (meta s') \<le> length (meta ex_engine_pruned)" by auto
  with search_terminates[of ex_rng ex_fitness 3 "1 / 2" ex_engine_pinned ex_engine_pruned] l1 e n l2 ep
  show ?thesis by blast
qed

subsection \<open>C6: resumption is deterministic\<close>

text \<open>
  C6. Two invocations that find the same two checkpoint files, with the same log, initial
  patience, budget, mutation fraction and fitness function, end with the same exception
  or with the same log, hyperparameter mapping, metadata and seed, whatever the
  hyperparameter mapping, metadata and seed the two engine objects were built with (the
  seed of a new object is the time) and whatever the state of the global generator is:
  the files replace the former, and every iteration seeds the generator with the
  incremented seed before it draws.
\<close>

theorem resume_deterministic:
  assumes "state_f s = Some st" and "hyp_f s = Some h0"
  shows "map_option (map_sum id (\<lambda>t. (result t, hyp t, meta t, seed t)))
           (call R fitness epochs mutation (s\<lparr>hyp := h', meta := m', seed := sd', gen := g'\<rparr>))
       = map_option (map_sum id (\<lambda>t. (result t, hyp t, meta t, seed t)))
           (call R fitness epochs mutation s)"
  unfolding call_def prepare_both_files[OF assms] by (rule loop_gen_obs) simp

theorem resume_deterministic_witness:
  "state_f (save ex_engine) = Some (meta ex_engine, seed ex_engine)
   \<and> hyp_f (save ex_engine) = Some [(''lr'', 1 / 100), (''x_proba'', 1 / 2)]
   \<and> map_option (map_sum id (\<lambda>t. (result t, hyp t, meta t, seed t)))
         (call ex_rng ex_fitness 2 (1 / 2) ((save ex_engine)\<lparr>hyp := [], meta := [], seed := 42, gen := 7\<rparr>))
     = map_option (map_sum id (\<lambda>t. (result t, hyp t, meta t, seed t)))
         (call ex_rng ex_fitness 2 (1 / 2) (save ex_engine))
   \<and> map_option (map_sum id result) (call ex_rng ex_fitness 2 (1 / 2) (save ex_engine))
     = Some (Inr [(0, ''baseline'', 0, 0, 0, 1 / 2),
                  (1, ''x_proba'', 1 / 2, 23 / 50, - (2 / 25), 27 / 50),
                  (2, ''x_proba'', 23 / 50, 21 / 50, - (87 / 1000), 29 / 50)])"
proof -
  have a: "state_f (save ex_engine) = Some (meta ex_engine, seed ex_engine)"
    and b: "hyp_f (save ex_engine) = Some [(''lr'', 1 / 100), (''x_proba'', 1 / 2)]"
    by code_simp+
  have c: "map_option (map_sum id result) (call ex_rng ex_fitness 2 (1 / 2) (save ex_engine))
     = Some (Inr [(0, ''baseline'', 0, 0, 0, 1 / 2),
                  (1, ''x_proba'', 1 / 2, 23 / 50, - (2 / 25), 27 / 50),
                  (2, ''x_proba'', 23 / 50, 21 / 50, - (87 / 1000), 29 / 50)])"
    by code_simp
  from resume_deterministic[OF a b, where R = ex_rng and fitness = ex_fitness and epochs = 2
      and mutation = "1 / 2" and h' = "[]" and m' = "[]" and sd' = 42 and g' = 7] a b c
  show ?thesis by blast
qed

subsection \<open>C7: a spent budget\<close>

text \<open>
  C7. When the budget equals the number of completed epochs, the length of the log minus
  one (the log then has the baseline row at least), \<^verbatim>\<open>__call__\<close> returns without a
  call of the fitness function and without a new row in the log, and the mapping it
  returns is the one of the hyperparameter file, or the one of the engine when there is
  no such file.
\<close>

theorem budget_already_spent:
  assumes "0 \<le> epochs" and "epochs = int (length (result s)) - 1"
  shows "\<exists>s'. call R fitness epochs mutation s = Some (Inr s')
           \<and> result s' = result s \<and> calls s' = calls s \<and> epoch s' = epochs
           \<and> hyp s' = (case hyp_f s of None \<Rightarrow> hyp s | Some h \<Rightarrow> h)"
proof -
  from assms have ne: "result (load s) \<noteq> []" by (auto simp: load_fields)
  let ?s2 = "(load s)\<lparr>epoch := int (length (result (load s))) - 1,
                       best_fit := max_fitness (result (load s))\<rparr>"
  have c: "call R fitness epochs mutation s = evolve_loop R fitness epochs mutation (save ?s2)"
    using ne by (simp add: call_def prepare_def Let_def)
  have "epoch (save ?s2) = epochs" using assms(2) by (simp add: save_def load_fields)
  then have "evolve_loop R fitness epochs mutation (save ?s2) = Some (Inr (save ?s2))"
    by (intro evolve_loop_done) simp
  with c have "call R fitness epochs mutation s = Some (Inr (save ?s2))" by simp
  moreover have "result (save ?s2) = result s" "calls (save ?s2) = calls s"
    "epoch (save ?s2) = epochs" "hyp (save ?s2) = (case hyp_f s of None \<Rightarrow> hyp s | Some h \<Rightarrow> h)"
    using assms(2) by (simp_all add: save_def load_fields)
  ultimately show ?thesis by blast
qed

theorem budget_already_spent_witness:
  "(0::int) \<le> 0 \<and> 0 = int (length (result ex_engine)) - 1
   \<and> (\<exists>s'. call ex_rng ex_fitness 0 (1 / 2) ex_engine = Some (Inr s')
          \<and> result s' = result ex_engine \<and> calls s' = calls ex_engine
          \<and> hyp s' = hyp ex_engine)"
proof -
  have a: "(0::int) \<le> 0" by simp
  have b: "0 = int (length (result ex_engine)) - 1" by code_simp
  have c: "(case hyp_f ex_engine of None \<Rightarrow> hyp ex_engine | Some h \<Rightarrow> h) = hyp ex_engine"
    by code_simp
  from budget_already_spent[OF a b, of ex_rng ex_fitness "1 / 2"] a b c show ?thesis by auto
qed

subsection \<open>C3: patience\<close>

text \<open>
  C3. A trial changes the patience of its key by +1 when the improvement is positive and
  by -1/2 otherwise; the key is in the metadata after the trial exactly when that value
  is positive, and the value stored for it is the minimum of that value and twice the
  initial patience, so at most twice the initial patience. \<^verbatim>\<open>set_meta\<close> gives every
  key the initial patience. So, with a positive initial patience, in every state of a run
  every active key has a positive patience of at most twice the initial patience: a key
  leaves the metadata in the iteration that brings its patience to 0 or below.
\<close>

theorem patience_bounded_and_pruned:
  "(patience_inv s \<and> (loop_step R fitness epochs mutation)\<^sup>*\<^sup>* s s' \<longrightarrow> patience_inv s')
   \<and> (decide R t = Inr d \<and> d_momentum d \<noteq> 0 \<and> step R fitness mutation t = Inr t' \<longrightarrow>
        new_patience R fitness mutation d t
          = patience (d_entry d) + (if 0 < better R fitness mutation d t then 1 else - (1 / 2))
        \<and> (d_key d \<in> fst ` set (meta t')) = (0 < new_patience R fitness mutation d t)
        \<and> map_of (meta t') (d_key d)
            = (if 0 < new_patience R fitness mutation d t
               then Some (trial_entry R fitness mutation d t) else None)
        \<and> patience (trial_entry R fitness mutation d t)
            = min (2 * patience0 t) (new_patience R fitness mutation d t)
        \<and> patience (trial_entry R fitness mutation d t) \<le> 2 * patience0 t)
   \<and> (0 < P \<longrightarrow> (\<forall>(k, e) \<in> set (set_meta h P). patience e = P \<and> 0 < patience e \<and> patience e \<le> 2 * P))"
proof -
  have 1: "patience_inv s \<and> (loop_step R fitness epochs mutation)\<^sup>*\<^sup>* s s' \<longrightarrow> patience_inv s'"
    using run_patience_inv[of R fitness epochs mutation s s'] by blast
  have 2: "decide R t = Inr d \<and> d_momentum d \<noteq> 0 \<and> step R fitness mutation t = Inr t' \<longrightarrow>
        new_patience R fitness mutation d t
          = patience (d_entry d) + (if 0 < better R fitness mutation d t then 1 else - (1 / 2))
        \<and> (d_key d \<in> fst ` set (meta t')) = (0 < new_patience R fitness mutation d t)
        \<and> map_of (meta t') (d_key d)
            = (if 0 < new_patience R fitness mutation d t
               then Some (trial_entry R fitness mutation d t) else None)
        \<and> patience (trial_entry R fitness mutation d t)
            = min (2 * patience0 t) (new_patience R fitness mutation d t)
        \<and> patience (trial_entry R fitness mutation d t) \<le> 2 * patience0 t"
    using trial_key_kept[of R t d fitness mutation t']
    by (simp add: trial_entry_patience new_patience_def)
  have 3: "0 < P \<longrightarrow> (\<forall>(k, e) \<in> set (set_meta h P). patience e = P \<and> 0 < patience e \<and> patience e \<le> 2 * P)"
    using set_meta_entries(1)[of _ _ h P] by auto
  from 1 2 3 show ?thesis by (intro conjI)
qed

theorem patience_bounded_and_pruned_witness:
  "patience_inv ex_engine_pinned
   \<and> (loop_step ex_rng ex_fitness 3 (1 / 2))\<^sup>*\<^sup>* ex_engine_pinned ex_engine_pruned
   \<and> patience_inv ex_engine_pruned
   \<and> decide ex_rng ex_engine_tired = Inr ex_decision_tired \<and> d_momentum ex_decision_tired \<noteq> 0
   \<and> (\<exists>t'. step ex_rng ex_fitness (1 / 2) ex_engine_tired = Inr t'
         \<and> new_patience ex_rng ex_fitness (1 / 2) ex_decision_tired ex_engine_tired = 0
         \<and> d_key ex_decision_tired \<notin> fst ` set (meta t'))
   \<and> decide ex_rng ex_engine = Inr ex_decision \<and> d_momentum ex_decision \<noteq> 0
   \<and> (\<exists>t'. step ex_rng ex_fitness (1 / 2) ex_engine = Inr t'
         \<and> new_patience ex_rng ex_fitness (1 / 2) ex_decision ex_engine = 3
         \<and> d_key ex_decision \<in> fst ` set (meta t')
         \<and> patience (trial_entry ex_rng ex_fitness (1 / 2) ex_decision ex_engine) = 3)
   \<and> (0::rat) < 2
   \<and> map (\<lambda>(k, e). patience e) (set_meta ex_hyp 2) = [2]"
proof -
  have i: "patience_inv ex_engine_pinned" by code_simp
  have g: "epoch ex_engine_pinned < 3" "meta ex_engine_pinned \<noteq> []" by code_simp+
  with ex_step_pinned have "loop_step ex_rng ex_fitness 3 (1 / 2) ex_engine_pinned ex_engine_pruned"
    by (simp add: loop_step_def)
  then have r: "(loop_step ex_rng ex_fitness 3 (1 / 2))\<^sup>*\<^sup>* ex_engine_pinned ex_engine_pruned"
    by (rule r_into_rtranclp)
  have mt: "d_momentum ex_decision_tired \<noteq> 0" and m: "d_momentum ex_decision \<noteq> 0" by code_simp+
  obtain t1 where t1: "step ex_rng ex_fitness (1 / 2) ex_engine_tired = Inr t1"
    using ex_decide_tired by (rule decide_step_ex)
  obtain t2 where t2: "step ex_rng ex_fitness (1 / 2) ex_engine = Inr t2"
    using ex_decide by (rule decide_step_ex)
  have n1: "new_patience ex_rng ex_fitness (1 / 2) ex_decision_tired ex_engine_tired = 0"
    and n2: "new_patience ex_rng ex_fitness (1 / 2) ex_decision ex_engine = 3"
    and p0: "patience0 ex_engine = 2" by code_simp+
  have P: "(0::rat) < 2" by simp
  note A = patience_bounded_and_pruned[of ex_engine_pinned ex_rng ex_fitness 3 "1 / 2" ex_engine_pruned
      ex_engine_tired ex_decision_tired t1 2 ex_hyp]
  note B = patience_bounded_and_pruned[of ex_engine_pinned ex_rng ex_fitness 3 "1 / 2" ex_engine_pruned
      ex_engine ex_decision t2 2 ex_hyp]
  from A i r have a1: "patience_inv ex_engine_pruned" by blast
  from A ex_decide_tired mt t1 n1 have a2: "d_key ex_decision_tired \<notin> fst ` set (meta t1)" by simp
  from B ex_decide m t2 n2 p0 have a3: "d_key ex_decision \<in> fst ` set (meta t2)
      \<and> patience (trial_entry ex_rng ex_fitness (1 / 2) ex_decision ex_engine) = 3" by simp
  have k: "set_meta ex_hyp 2 \<noteq> []" by code_simp
  from A P have "\<forall>(k, e) \<in> set (set_meta ex_hyp 2). patience e = 2" by blast
  then have "\<forall>x \<in> set (map (\<lambda>(k, e). patience e) (set_meta ex_hyp 2)). x = 2" by auto
  moreover have "length (map (\<lambda>(k, e). patience e) (set_meta ex_hyp 2)) = 1" by code_simp
  ultimately have a4: "map (\<lambda>(k, e). patience e) (set_meta ex_hyp 2) = [2]"
    by (cases "map (\<lambda>(k, e). patience e) (set_meta ex_hyp 2)") auto
  from i r a1 ex_decide_tired mt t1 n1 a2 ex_decide m t2 n2 a3 P a4 show ?thesis by blast
qed

subsection \<open>C8: exact names before suffixes\<close>



end
